theory Spec2Isabelle
  imports Complex_Main "HOL-Library.Sublist"
begin

section \<open>Strings as Python sees them\<close>

text \<open>
  A Python \<^verbatim>\<open>str\<close> is a sequence of code points and \<^verbatim>\<open>len\<close> counts them.  The model
  takes a text to be a \<^typ>\<open>string\<close> whose characters are the code points below 256, so
  that \<^const>\<open>length\<close> is \<^verbatim>\<open>len\<close>.  \<^verbatim>\<open>str.strip()\<close> without argument removes the
  characters for which \<^verbatim>\<open>str.isspace\<close> holds; below 256 these are
  \<^verbatim>\<open>\t \n \v \f \r\<close>, the separators \<^verbatim>\<open>0x1c .. 0x1f\<close>, the blank, \<^verbatim>\<open>0x85\<close> and \<^verbatim>\<open>0xa0\<close>.
\<close>

definition isspace :: "char \<Rightarrow> bool" where
  "isspace c \<longleftrightarrow>
     (let n = (of_char c :: nat)
      in (9 \<le> n \<and> n \<le> 13) \<or> (28 \<le> n \<and> n \<le> 32) \<or> n = 133 \<or> n = 160)"

definition lstrip :: "string \<Rightarrow> string" where
  "lstrip s = dropWhile isspace s"

definition rstrip :: "string \<Rightarrow> string" where
  "rstrip s = rev (dropWhile isspace (rev s))"

definition strip :: "string \<Rightarrow> string" where
  "strip s = rstrip (lstrip s)"

text \<open>The paragraph separator \<^verbatim>\<open>"\n\n"\<close>.\<close>

definition sep :: string where
  "sep = [CHR 0x0A, CHR 0x0A]"

text \<open>
  \<^verbatim>\<open>text.split("\n\n")\<close>: the pieces between the occurrences of the separator, found from
  left to right without overlap; the first argument is the piece read so far.  The empty
  text gives one empty piece, as in Python.
\<close>

fun split_sep :: "string \<Rightarrow> string \<Rightarrow> string list" where
  "split_sep piece [] = [piece]"
| "split_sep piece [c] = [piece @ [c]]"
| "split_sep piece (c # d # cs) =
     (if c = CHR 0x0A \<and> d = CHR 0x0A then piece # split_sep [] cs
      else split_sep (piece @ [c]) (d # cs))"

text \<open>
  The slice \<^verbatim>\<open>s[-k:]\<close>: for positive \<open>k\<close> the last \<open>k\<close> characters (all of \<open>s\<close> when it is
  shorter), for \<open>k \<le> 0\<close> the slice \<^verbatim>\<open>s[|k|:]\<close>.
\<close>

definition slice_from_neg :: "string \<Rightarrow> int \<Rightarrow> string" where
  "slice_from_neg s k =
     (if 0 < k then drop (length s - nat k) s else drop (nat (- k)) s)"

section \<open>The chunker (ingest.py)\<close>

text \<open>
  \<^verbatim>\<open>paragraphs = [p.strip() for p in text.split("\n\n") if p.strip()]\<close>
\<close>

definition paragraphs :: "string \<Rightarrow> string list" where
  "paragraphs text = map strip (filter (\<lambda>p. strip p \<noteq> []) (split_sep [] text))"

text \<open>
  One round of the loop over the paragraphs.  The state is the pair of \<^verbatim>\<open>chunks\<close> and
  \<^verbatim>\<open>current_chunk\<close>; \<^verbatim>\<open>chunk_size\<close> and \<^verbatim>\<open>overlap\<close> are Python integers.
\<close>

definition chunk_step :: "int \<Rightarrow> int \<Rightarrow> string list \<times> string \<Rightarrow> string \<Rightarrow> string list \<times> string" where
  "chunk_step chunk_size overlap st paragraph =
     (let chunks = fst st; current_chunk = snd st
      in if current_chunk \<noteq> [] \<and>
            int (length current_chunk) + int (length paragraph) + 2 > chunk_size
         then
           (chunks @ [strip current_chunk],
            if overlap > 0 \<and> int (length current_chunk) > overlap
            then slice_from_neg current_chunk overlap @ sep @ paragraph
            else paragraph)
         else
           (chunks,
            if current_chunk \<noteq> [] then current_chunk @ sep @ paragraph
            else paragraph))"

fun chunk_loop :: "int \<Rightarrow> int \<Rightarrow> string list \<times> string \<Rightarrow> string list \<Rightarrow> string list \<times> string" where
  "chunk_loop chunk_size overlap st [] = st"
| "chunk_loop chunk_size overlap st (paragraph # rest) =
     chunk_loop chunk_size overlap (chunk_step chunk_size overlap st paragraph) rest"

definition chunk_text :: "string \<Rightarrow> int \<Rightarrow> int \<Rightarrow> string list" where
  "chunk_text text chunk_size overlap =
     (let st = chunk_loop chunk_size overlap ([], []) (paragraphs text);
          chunks = fst st; current_chunk = snd st
      in if strip current_chunk \<noteq> [] then chunks @ [strip current_chunk] else chunks)"

section \<open>The retriever (retriever.py)\<close>

text \<open>
  Python floats are modelled by the rationals: arithmetic is exact, and infinities and NaN
  are left out.  On the inputs used as examples below (dyadic rationals of small size) the
  floating-point computation is exact as well.

  \<^verbatim>\<open>round(x, ndigits)\<close> on a float rounds the exact value of \<open>x\<close> to the nearest multiple of
  \<open>10\<^sup>-\<^sup>n\<close>, a tie going to the even neighbour.
\<close>

definition round_half_even :: "rat \<Rightarrow> int" where
  "round_half_even x =
     (let f = \<lfloor>x\<rfloor>; r = x - of_int f
      in if r < 1 / 2 then f
         else if 1 / 2 < r then f + 1
         else if even f then f else f + 1)"

definition py_round :: "rat \<Rightarrow> nat \<Rightarrow> rat" where
  "py_round x ndigits = of_int (round_half_even (x * 10 ^ ndigits)) / 10 ^ ndigits"

text \<open>
  The errors a call of \<^verbatim>\<open>search\<close> can end in: subscripting \<^verbatim>\<open>None\<close>, \<^verbatim>\<open>[0]\<close> on an empty list,
  \<^verbatim>\<open>.get\<close> on \<^verbatim>\<open>None\<close>, and whatever the embedding provider or the index raise, which
  \<^verbatim>\<open>search\<close> does not catch.
\<close>

datatype error = TypeError | IndexError | AttributeError | ProviderError string

type_synonym embedding = "rat list"

type_synonym metadata = "string \<rightharpoonup> string"

text \<open>The response model \<^verbatim>\<open>ChunkResult\<close> of models.py.\<close>

record ChunkResult =
  text' :: string
  source :: string
  score :: rat

text \<open>
  What \<^verbatim>\<open>collection.query\<close> returns: a dictionary whose entries \<^verbatim>\<open>documents\<close>, \<^verbatim>\<open>metadatas\<close>
  and \<^verbatim>\<open>distances\<close> are \<^verbatim>\<open>None\<close> or hold one list per query embedding; the metadata of a
  stored entry can be \<^verbatim>\<open>None\<close>.
\<close>

record QueryResult =
  documents :: "string list list option"
  metadatas :: "metadata option list list option"
  distances :: "rat list list option"

text \<open>
  The collection is an external collaborator.  The model holds what \<^verbatim>\<open>search\<close> uses of it:
  \<^verbatim>\<open>collection.count()\<close> and \<^verbatim>\<open>collection.query(query_embeddings, n_results)\<close>, which may
  raise.  The embedding provider \<^verbatim>\<open>model.encode\<close> is a function that may raise as well.
  \<^verbatim>\<open>get_embedding_model()\<close> and \<^verbatim>\<open>get_collection()\<close> hand out the process-wide objects;
  \<^verbatim>\<open>search\<close> takes them as arguments here.
\<close>

record Collection =
  count :: nat
  query :: "embedding list \<Rightarrow> int \<Rightarrow> error + QueryResult"

text \<open>\<^verbatim>\<open>similarity = round(1.0 - (distance / 2.0), 4)\<close>\<close>

definition similarity_of :: "rat \<Rightarrow> rat" where
  "similarity_of distance = py_round (1 - distance / 2) 4"

text \<open>\<^verbatim>\<open>m.get(key, dflt)\<close>\<close>

definition metadata_get :: "metadata \<Rightarrow> string \<Rightarrow> string \<Rightarrow> string" where
  "metadata_get m key dflt = (case m key of None \<Rightarrow> dflt | Some v \<Rightarrow> v)"

text \<open>
  The loop over \<^verbatim>\<open>zip(documents[0], metadatas[0], distances[0])\<close>, appending one
  \<^verbatim>\<open>ChunkResult\<close> per triple to \<^verbatim>\<open>chunks\<close>.
\<close>

fun build_results :: "(string \<times> metadata option \<times> rat) list \<Rightarrow> ChunkResult list \<Rightarrow> error + ChunkResult list" where
  "build_results [] chunks = Inr chunks"
| "build_results ((doc, metadata, distance) # rest) chunks =
     (let similarity = similarity_of distance
      in case metadata of
           None \<Rightarrow> Inl AttributeError
         | Some m \<Rightarrow>
             build_results rest
               (chunks @ [\<lparr>text' = doc, source = metadata_get m ''source'' ''unknown'',
                           score = similarity\<rparr>]))"

definition search :: "(string list \<Rightarrow> error + embedding list) \<Rightarrow> Collection \<Rightarrow> string \<Rightarrow> int \<Rightarrow> error + ChunkResult list" where
  "search encode collection query_str top_k =
     (if count collection = 0 then Inr []
      else case encode [query_str] of
        Inl e \<Rightarrow> Inl e
      | Inr query_embedding \<Rightarrow>
         (case query collection query_embedding (min top_k (int (count collection))) of
            Inl e \<Rightarrow> Inl e
          | Inr results \<Rightarrow>
             (case documents results of
                None \<Rightarrow> Inr []
              | Some [] \<Rightarrow> Inr []
              | Some (docs0 # _) \<Rightarrow>
                 if docs0 = [] then Inr []
                 else (case metadatas results of
                         None \<Rightarrow> Inl TypeError
                       | Some [] \<Rightarrow> Inl IndexError
                       | Some (metas0 # _) \<Rightarrow>
                          (case distances results of
                             None \<Rightarrow> Inl TypeError
                           | Some [] \<Rightarrow> Inl IndexError
                           | Some (dists0 # _) \<Rightarrow>
                               build_results (zip docs0 (zip metas0 dists0)) [])))))"

section \<open>Notions used to state and prove the properties\<close>

text \<open>\<^verbatim>\<open>"\n\n".join(g)\<close>\<close>

fun join_sep :: "string list \<Rightarrow> string" where
  "join_sep [] = []"
| "join_sep [p] = p"
| "join_sep (p # q # ps) = p @ sep @ join_sep (q # ps)"

text \<open>A string is trimmed when it is not empty and neither starts nor ends with whitespace.\<close>

definition trimmed :: "string \<Rightarrow> bool" where
  "trimmed s \<longleftrightarrow> s \<noteq> [] \<and> \<not> isspace (hd s) \<and> \<not> isspace (last s)"

text \<open>
  The text carried from a closed accumulator into the next one: its last \<open>overlap\<close>
  characters and the separator, when \<open>overlap\<close> is positive and the accumulator is longer.
\<close>

definition carry :: "int \<Rightarrow> string \<Rightarrow> string" where
  "carry overlap prev =
     (if overlap > 0 \<and> int (length prev) > overlap
      then slice_from_neg prev overlap @ sep else [])"

text \<open>
  The accumulators that a grouping of the paragraphs gives rise to: each one is the carried
  text of its predecessor, followed by the paragraphs of its group, joined.
\<close>

fun layout :: "int \<Rightarrow> string \<Rightarrow> string list list \<Rightarrow> string list" where
  "layout overlap prev [] = []"
| "layout overlap prev (g # gs) =
     (carry overlap prev @ join_sep g) # layout overlap (carry overlap prev @ join_sep g) gs"

text \<open>
  The loop invariant of the chunker: after the paragraphs \<open>done\<close>, grouped as \<open>gs\<close>, the
  closed chunks are the trimmed accumulators of all groups but the last, the current chunk
  is the accumulator of the last group, and every group is a single paragraph or has an
  accumulator within \<open>chunk_size\<close>.
\<close>

definition chunk_inv :: "int \<Rightarrow> int \<Rightarrow> string list \<times> string \<Rightarrow> string list \<Rightarrow> string list list \<Rightarrow> bool" where
  "chunk_inv cs ov st done gs \<longleftrightarrow>
     concat gs = done \<and> [] \<notin> set gs \<and> list_all trimmed done \<and>
     fst st = map strip (butlast (layout ov [] gs)) \<and>
     snd st = last ([] # layout ov [] gs) \<and>
     list_all2 (\<lambda>g a. length g = 1 \<or> int (length a) \<le> cs) gs (layout ov [] gs)"

text \<open>
  Stand-ins for the collaborators, for the examples: an index that answers every query
  with one given response, an embedding provider that maps every text to one given vector,
  and one that is unavailable.
\<close>

definition fixed_index :: "QueryResult \<Rightarrow> embedding list \<Rightarrow> int \<Rightarrow> error + QueryResult" where
  "fixed_index response query_embeddings n_results = Inr response"

definition fixed_encode :: "embedding \<Rightarrow> string list \<Rightarrow> error + embedding list" where
  "fixed_encode v texts = Inr (map (\<lambda>t. v) texts)"


definition example_response :: QueryResult where
  "example_response =
     \<lparr>documents = Some [[''Returns are accepted within 30 days.'',
                          ''Standard shipping takes 5 days.'',
                          ''Refunds are issued in 7 days.'']],
      metadatas = Some [[Some [''source'' \<mapsto> ''returns.md''],
                          Some [''source'' \<mapsto> ''shipping.md''],
                          Some Map.empty]],
      distances = Some [[0, 1, 2]]\<rparr>"

definition example_collection :: Collection where
  "example_collection = \<lparr>count = 5, query = fixed_index example_response\<rparr>"



definition example_results :: "ChunkResult list" where
  "example_results =
     [\<lparr>text' = ''Returns are accepted within 30 days.'', source = ''returns.md'', score = 1\<rparr>,
      \<lparr>text' = ''Standard shipping takes 5 days.'', source = ''shipping.md'', score = 1 / 2\<rparr>,
      \<lparr>text' = ''Refunds are issued in 7 days.'', source = ''unknown'', score = 0\<rparr>]"


section \<open>Trimming\<close>

lemma lstrip_Nil_or_hd: "lstrip s = [] \<or> \<not> isspace (hd (lstrip s))"
  unfolding lstrip_def by (metis hd_dropWhile)

lemma rstrip_Nil_or_last: "rstrip s = [] \<or> \<not> isspace (last (rstrip s))"
  unfolding rstrip_def
  by (metis hd_dropWhile last_rev rev_is_Nil_conv)

lemma rstrip_last: "s \<noteq> [] \<Longrightarrow> \<not> isspace (last s) \<Longrightarrow> rstrip s = s"
  unfolding rstrip_def
  by (cases s rule: rev_cases) auto

lemma lstrip_hd: "s \<noteq> [] \<Longrightarrow> \<not> isspace (hd s) \<Longrightarrow> lstrip s = s"
  unfolding lstrip_def by (cases s) auto

lemma hd_rstrip: "rstrip s \<noteq> [] \<Longrightarrow> hd (rstrip s) = hd s"
proof -
  assume a: "rstrip s \<noteq> []"
  have "\<exists>zs. s = rstrip s @ zs"
    unfolding rstrip_def
    by (metis rev_append rev_rev_ident takeWhile_dropWhile_id)
  then obtain zs where "s = rstrip s @ zs" ..
  then have "hd s = hd (rstrip s @ zs)" by simp
  with a show ?thesis by simp
qed

lemma trimmed_strip: "strip s \<noteq> [] \<Longrightarrow> trimmed (strip s)"
proof -
  assume a: "strip s \<noteq> []"
  then have l: "lstrip s \<noteq> []" unfolding strip_def rstrip_def by auto
  have "hd (strip s) = hd (lstrip s)" using a hd_rstrip unfolding strip_def by blast
  moreover have "\<not> isspace (hd (lstrip s))" using l lstrip_Nil_or_hd by blast
  moreover have "\<not> isspace (last (strip s))" using a rstrip_Nil_or_last unfolding strip_def by blast
  ultimately show ?thesis using a unfolding trimmed_def by simp
qed

lemma strip_trimmed: "trimmed s \<Longrightarrow> strip s = s"
  unfolding trimmed_def strip_def by (simp add: lstrip_hd rstrip_last)

lemma strip_idem: "strip (strip s) = strip s"
proof (cases "strip s = []")
  case True
  have "strip [] = []" by (simp add: strip_def lstrip_def rstrip_def)
  with True show ?thesis by simp
next
  case False
  then show ?thesis using trimmed_strip strip_trimmed by blast
qed

lemma paragraphs_trimmed: "p \<in> set (paragraphs t) \<Longrightarrow> trimmed p"
  unfolding paragraphs_def using trimmed_strip by auto

lemma lstrip_append_trimmed: "trimmed p \<Longrightarrow> lstrip (a @ p) = lstrip a @ p"
  unfolding lstrip_def trimmed_def
  by (cases p) (auto simp: dropWhile_append)

lemma strip_append_trimmed: "trimmed p \<Longrightarrow> strip (a @ p) = lstrip a @ p"
proof -
  assume t: "trimmed p"
  then have "lstrip a @ p \<noteq> []" "\<not> isspace (last (lstrip a @ p))"
    unfolding trimmed_def by auto
  then have "rstrip (lstrip a @ p) = lstrip a @ p" by (rule rstrip_last)
  then show ?thesis unfolding strip_def using lstrip_append_trimmed [OF t] by simp
qed

section \<open>The loop invariant of the chunker\<close>

lemma join_sep_snoc: "g \<noteq> [] \<Longrightarrow> join_sep (g @ [p]) = join_sep g @ sep @ p"
  by (induction g rule: join_sep.induct) auto

lemma length_layout: "length (layout ov prev gs) = length gs"
  by (induction gs arbitrary: prev) auto

lemma layout_snoc:
  "layout ov prev (gs @ [g]) =
     layout ov prev gs @ [carry ov (last (prev # layout ov prev gs)) @ join_sep g]"
  by (induction gs arbitrary: prev) auto

lemma join_sep_trimmed: "g \<noteq> [] \<Longrightarrow> list_all trimmed g \<Longrightarrow> trimmed (join_sep g)"
  by (induction g rule: join_sep.induct) (auto simp: trimmed_def)

lemma join_sep_nonempty: "g \<noteq> [] \<Longrightarrow> list_all trimmed g \<Longrightarrow> join_sep g \<noteq> []"
  using join_sep_trimmed unfolding trimmed_def by blast

lemma length_sep: "length sep = 2"
  by (simp add: sep_def)

lemma carry_Nil: "carry ov [] = []"
  by (auto simp: carry_def)

lemma chunk_inv_init: "chunk_inv cs ov ([], []) [] []"
  by (simp add: chunk_inv_def)

lemma chunk_inv_cur_nonempty:
  assumes "chunk_inv cs ov st done gs" "gs \<noteq> []"
  shows "snd st \<noteq> []"
proof -
  obtain hs h where gs: "gs = hs @ [h]" using assms(2) by (cases gs rule: rev_cases) auto
  have h: "h \<noteq> []" "list_all trimmed h"
    using assms(1) unfolding chunk_inv_def gs by (auto simp: list_all_iff)
  have "snd st = carry ov (last ([] # layout ov [] hs)) @ join_sep h"
    using assms(1) unfolding chunk_inv_def gs by (simp add: layout_snoc)
  then show ?thesis using join_sep_nonempty [OF h] by simp
qed

lemma chunk_step_inv:
  assumes inv: "chunk_inv cs ov st done gs" and p: "trimmed p"
  shows "\<exists>gs'. chunk_inv cs ov (chunk_step cs ov st p) (done @ [p]) gs'"
proof (cases "snd st = []")
  case True
  then have gs: "gs = []" using chunk_inv_cur_nonempty [OF inv] by blast
  have "chunk_inv cs ov (chunk_step cs ov st p) (done @ [p]) [[p]]"
    using inv p True unfolding gs chunk_inv_def chunk_step_def
    by (simp add: carry_Nil Let_def)
  then show ?thesis ..
next
  case False
  then have "gs \<noteq> []" using inv unfolding chunk_inv_def by auto
  then obtain hs h where gs: "gs = hs @ [h]" by (cases gs rule: rev_cases) auto
  define prev where "prev = last ([] # layout ov [] hs)"
  have lay: "layout ov [] (hs @ [h]) = layout ov [] hs @ [carry ov prev @ join_sep h]"
    unfolding prev_def by (simp add: layout_snoc)
  have cur: "snd st = carry ov prev @ join_sep h"
    using inv unfolding chunk_inv_def gs lay by simp
  have chunks: "fst st = map strip (layout ov [] hs)"
    using inv unfolding chunk_inv_def gs lay by simp
  have h: "h \<noteq> []" using inv unfolding chunk_inv_def gs by auto
  have cc: "concat hs @ h = done" using inv unfolding chunk_inv_def gs by simp
  have tr: "list_all trimmed done" using inv unfolding chunk_inv_def by simp
  have nn: "[] \<notin> set hs" using inv unfolding chunk_inv_def gs by simp
  have sz: "list_all2 (\<lambda>g a. length g = 1 \<or> int (length a) \<le> cs) hs (layout ov [] hs)"
    using inv unfolding chunk_inv_def gs lay
    by (simp add: list_all2_append length_layout)
  have szh: "length h = 1 \<or> int (length (snd st)) \<le> cs"
    using inv unfolding chunk_inv_def gs lay cur
    by (simp add: list_all2_append length_layout)
  show ?thesis
  proof (cases "int (length (snd st)) + int (length p) + 2 > cs")
    case True
    have step: "chunk_step cs ov st p = (fst st @ [strip (snd st)], carry ov (snd st) @ p)"
      using True False unfolding chunk_step_def carry_def by (simp add: Let_def)
    have lay2: "layout ov [] gs = layout ov [] hs @ [snd st]"
      using cur lay unfolding gs by simp
    have "layout ov [] (gs @ [[p]]) =
        layout ov [] gs @ [carry ov (last ([] # layout ov [] gs)) @ join_sep [p]]"
      by (rule layout_snoc)
    then have lay': "layout ov [] (gs @ [[p]]) = layout ov [] gs @ [carry ov (snd st) @ p]"
      by (simp add: lay2)
    have c1: "fst st @ [strip (snd st)] =
        map strip (butlast (layout ov [] gs @ [carry ov (snd st) @ p]))"
    proof -
      have "butlast (layout ov [] gs @ [carry ov (snd st) @ p]) = layout ov [] gs"
        by (rule butlast_snoc)
      then show ?thesis by (simp only: lay2 chunks map_append list.map)
    qed
    have c2: "list_all2 (\<lambda>g a. length g = 1 \<or> int (length a) \<le> cs) (gs @ [[p]])
        (layout ov [] gs @ [carry ov (snd st) @ p])"
      using inv unfolding chunk_inv_def by (intro list_all2_appendI) simp_all
    have c3: "concat (gs @ [[p]]) = done @ [p]" "[] \<notin> set (gs @ [[p]])"
      "list_all trimmed (done @ [p])"
      using inv p unfolding chunk_inv_def by simp_all
    have c4: "carry ov (snd st) @ p = last ([] # layout ov [] gs @ [carry ov (snd st) @ p])"
      by simp
    have "chunk_inv cs ov (chunk_step cs ov st p) (done @ [p]) (gs @ [[p]])"
      unfolding chunk_inv_def step lay' fst_conv snd_conv
      using c1 c2 c3 c4 by blast
    then show ?thesis ..
  next
    case b: False
    have step: "chunk_step cs ov st p = (fst st, snd st @ sep @ p)"
      using b False unfolding chunk_step_def by (simp add: Let_def)
    have lay': "layout ov [] (hs @ [h @ [p]]) = layout ov [] hs @ [snd st @ sep @ p]"
      using cur h unfolding prev_def by (simp add: layout_snoc join_sep_snoc)
    have "chunk_inv cs ov (chunk_step cs ov st p) (done @ [p]) (hs @ [h @ [p]])"
      unfolding chunk_inv_def step lay'
      using cc tr nn sz p b chunks
      by (simp add: list_all2_append length_layout length_sep)
    then show ?thesis ..
  qed
qed

lemma chunk_loop_inv:
  "chunk_inv cs ov st done gs \<Longrightarrow> list_all trimmed ps \<Longrightarrow>
   \<exists>gs'. chunk_inv cs ov (chunk_loop cs ov st ps) (done @ ps) gs'"
proof (induction ps arbitrary: st "done" gs)
  case Nil
  then show ?case by auto
next
  case (Cons p ps)
  from Cons.prems obtain gs1 where
    "chunk_inv cs ov (chunk_step cs ov st p) (done @ [p]) gs1"
    using chunk_step_inv by fastforce
  from Cons.IH [OF this] Cons.prems(2) show ?case by simp
qed

lemma chunk_text_layout:
  "\<exists>gs. concat gs = paragraphs text \<and> [] \<notin> set gs \<and>
        chunk_text text cs ov = map strip (layout ov [] gs) \<and>
        list_all2 (\<lambda>g a. length g = 1 \<or> int (length a) \<le> cs) gs (layout ov [] gs)"
proof -
  have tr: "list_all trimmed (paragraphs text)"
    using paragraphs_trimmed by (simp add: list_all_iff)
  define st where "st = chunk_loop cs ov ([], []) (paragraphs text)"
  obtain gs where inv: "chunk_inv cs ov st (paragraphs text) gs"
    using chunk_loop_inv [OF chunk_inv_init tr, of cs ov] unfolding st_def by auto
  have ct: "chunk_text text cs ov =
      (if strip (snd st) \<noteq> [] then fst st @ [strip (snd st)] else fst st)"
    unfolding chunk_text_def st_def by (simp add: Let_def)
  have "chunk_text text cs ov = map strip (layout ov [] gs)"
  proof (cases "gs = []")
    case True
    then have "fst st = []" "snd st = []" using inv unfolding chunk_inv_def by simp_all
    then show ?thesis using True ct by (simp add: strip_def lstrip_def rstrip_def)
  next
    case False
    then obtain hs h where gs: "gs = hs @ [h]" by (cases gs rule: rev_cases) auto
    have "concat hs @ h = paragraphs text"
      using inv unfolding chunk_inv_def gs by simp
    then have "set h \<subseteq> set (paragraphs text)"
      by (metis Un_upper2 set_append)
    then have "list_all trimmed h" using tr by (auto simp: list_all_iff)
    moreover have "h \<noteq> []" using inv unfolding chunk_inv_def gs by auto
    ultimately have h: "h \<noteq> []" "list_all trimmed h" by simp_all
    define a where "a = carry ov (last ([] # layout ov [] hs))"
    have lay: "layout ov [] gs = layout ov [] hs @ [a @ join_sep h]"
      unfolding gs a_def by (simp add: layout_snoc)
    have cur: "snd st = a @ join_sep h" and chunks: "fst st = map strip (layout ov [] hs)"
      using inv unfolding chunk_inv_def lay by simp_all
    have "strip (snd st) = lstrip a @ join_sep h"
      unfolding cur using join_sep_trimmed [OF h] by (rule strip_append_trimmed)
    then have "strip (snd st) \<noteq> []" using join_sep_nonempty [OF h] by simp
    then show ?thesis using ct chunks cur unfolding lay by simp
  qed
  then show ?thesis using inv unfolding chunk_inv_def by blast
qed

lemma layout_nth:
  "j < length gs \<Longrightarrow>
   layout ov prev gs ! j =
     carry ov (if j = 0 then prev else layout ov prev gs ! (j - 1)) @ join_sep (gs ! j)"
proof (induction gs arbitrary: prev j)
  case Nil
  then show ?case by simp
next
  case (Cons g gs)
  show ?case
  proof (cases j)
    case 0
    then show ?thesis by simp
  next
    case (Suc k)
    then have "k < length gs" using Cons.prems by simp
    from Cons.IH [OF this] show ?thesis unfolding Suc
      by (cases k) simp_all
  qed
qed

lemma length_lstrip: "length (lstrip s) \<le> length s"
  unfolding lstrip_def by (rule length_dropWhile_le)


lemma length_carry: "int (length (carry ov prev)) \<le> (if 0 < ov then ov + 2 else 0)"
  unfolding carry_def slice_from_neg_def by (simp add: length_sep)


lemma chunk_text_nth:
  "\<exists>gs. concat gs = paragraphs text \<and> [] \<notin> set gs \<and>
        length (chunk_text text cs ov) = length gs \<and>
        (\<forall>j < length gs. \<exists>a.
            a = carry ov (if j = 0 then [] else layout ov [] gs ! (j - 1)) \<and>
            layout ov [] gs ! j = a @ join_sep (gs ! j) \<and>
            chunk_text text cs ov ! j = lstrip a @ join_sep (gs ! j) \<and>
            trimmed (join_sep (gs ! j)) \<and>
            (length (gs ! j) = 1 \<or> int (length (a @ join_sep (gs ! j))) \<le> cs))"
proof -
  obtain gs where gs: "concat gs = paragraphs text" "[] \<notin> set gs"
      "chunk_text text cs ov = map strip (layout ov [] gs)"
      "list_all2 (\<lambda>g a. length g = 1 \<or> int (length a) \<le> cs) gs (layout ov [] gs)"
    using chunk_text_layout by blast
  have len: "length (chunk_text text cs ov) = length gs"
    unfolding gs(3) by (simp add: length_layout)
  have tr: "\<And>p. p \<in> set (concat gs) \<Longrightarrow> trimmed p"
    unfolding gs(1) by (rule paragraphs_trimmed)
  have "\<exists>a. a = carry ov (if j = 0 then [] else layout ov [] gs ! (j - 1)) \<and>
            layout ov [] gs ! j = a @ join_sep (gs ! j) \<and>
            chunk_text text cs ov ! j = lstrip a @ join_sep (gs ! j) \<and>
            trimmed (join_sep (gs ! j)) \<and>
            (length (gs ! j) = 1 \<or> int (length (a @ join_sep (gs ! j))) \<le> cs)"
    if j: "j < length gs" for j
  proof -
    define a where "a = carry ov (if j = 0 then [] else layout ov [] gs ! (j - 1))"
    have lj: "layout ov [] gs ! j = a @ join_sep (gs ! j)"
      unfolding a_def using j by (rule layout_nth)
    have gj: "gs ! j \<in> set gs" using j by simp
    then have ne: "gs ! j \<noteq> []" using gs(2) by metis
    have "list_all trimmed (gs ! j)" using gj tr by (auto simp: list_all_iff)
    with ne have tj: "trimmed (join_sep (gs ! j))" by (rule join_sep_trimmed)
    have "chunk_text text cs ov ! j = strip (layout ov [] gs ! j)"
      unfolding gs(3) using j by (simp add: length_layout)
    then have cj: "chunk_text text cs ov ! j = lstrip a @ join_sep (gs ! j)"
      unfolding lj using strip_append_trimmed [OF tj] by simp
    have "length (gs ! j) = 1 \<or> int (length (layout ov [] gs ! j)) \<le> cs"
      using gs(4) j by (simp add: list_all2_conv_all_nth)
    then show ?thesis using lj cj tj a_def by auto
  qed
  then show ?thesis using gs(1,2) len by blast
qed

lemma sublist_join_sep: "p \<in> set g \<Longrightarrow> sublist p (join_sep g)"
proof (induction g rule: join_sep.induct)
  case 1
  then show ?case by simp
next
  case (2 q)
  then show ?case by simp
next
  case (3 q r rs)
  show ?case
  proof (cases "p = q")
    case True
    then show ?thesis by simp
  next
    case False
    with 3 have "sublist p (join_sep (r # rs))" by simp
    then have "sublist p ((q @ sep) @ join_sep (r # rs))" by (simp add: sublist_append)
    then show ?thesis by simp
  qed
qed


section \<open>Rounding and the similarity score\<close>

lemma round_half_even_cases:
  "round_half_even x = \<lfloor>x\<rfloor> \<and> x - of_int \<lfloor>x\<rfloor> \<le> 1 / 2 \<or>
   round_half_even x = \<lfloor>x\<rfloor> + 1 \<and> 1 / 2 \<le> x - of_int \<lfloor>x\<rfloor>"
  unfolding round_half_even_def Let_def by auto




lemma round_half_even_mono:
  assumes "x \<le> y"
  shows "round_half_even x \<le> round_half_even y"
proof (cases "\<lfloor>x\<rfloor> = \<lfloor>y\<rfloor>")
  case True
  then show ?thesis using assms unfolding round_half_even_def Let_def by auto
next
  case False
  have "\<lfloor>x\<rfloor> \<le> \<lfloor>y\<rfloor>" using assms by (rule floor_mono)
  with False have "\<lfloor>x\<rfloor> + 1 \<le> \<lfloor>y\<rfloor>" by simp
  moreover have "round_half_even x \<le> \<lfloor>x\<rfloor> + 1"
    using round_half_even_cases [of x] by auto
  moreover have "\<lfloor>y\<rfloor> \<le> round_half_even y"
    using round_half_even_cases [of y] by auto
  ultimately show ?thesis by linarith
qed

lemma similarity_of_antimono: "d \<le> e \<Longrightarrow> similarity_of e \<le> similarity_of d"
proof -
  assume "d \<le> e"
  then have "(1 - e / 2) * 10 ^ 4 \<le> (1 - d / 2) * 10 ^ 4" by simp
  then have "round_half_even ((1 - e / 2) * 10 ^ 4) \<le> round_half_even ((1 - d / 2) * 10 ^ 4)"
    by (rule round_half_even_mono)
  then show ?thesis unfolding similarity_of_def py_round_def
    by (simp add: divide_le_cancel)
qed

lemma similarity_of_0: "similarity_of 0 = 1"
  by code_simp

lemma similarity_of_1: "similarity_of 1 = 1 / 2"
  by code_simp

lemma similarity_of_2: "similarity_of 2 = 0"
  by code_simp






section \<open>The results of a search\<close>

lemma build_results_Inr:
  "build_results ts acc = Inr out \<Longrightarrow>
     length out = length acc + length ts \<and>
     map text' out = map text' acc @ map fst ts \<and>
     map score out = map score acc @ map (\<lambda>t. similarity_of (snd (snd t))) ts"
proof (induction ts arbitrary: acc)
  case Nil
  then show ?case by simp
next
  case (Cons t ts)
  obtain doc m x where t: "t = (doc, m, x)" by (cases t) auto
  show ?case
  proof (cases m)
    case None
    with Cons.prems show ?thesis unfolding t by simp
  next
    case (Some md)
    with Cons.prems have
      "build_results ts (acc @ [\<lparr>text' = doc, source = metadata_get md ''source'' ''unknown'',
          score = similarity_of x\<rparr>]) = Inr out"
      unfolding t by simp
    from Cons.IH [OF this] show ?thesis unfolding t by simp
  qed
qed

lemma build_results_total:
  "list_all (\<lambda>t. fst (snd t) \<noteq> None) ts \<Longrightarrow> \<exists>out. build_results ts acc = Inr out"
proof (induction ts arbitrary: acc)
  case Nil
  then show ?case by simp
next
  case (Cons t ts)
  obtain doc m x where t: "t = (doc, m, x)" by (cases t) auto
  from Cons.prems obtain md where m: "m = Some md" unfolding t by auto
  from Cons.prems have "list_all (\<lambda>t. fst (snd t) \<noteq> None) ts" by simp
  from Cons.IH [OF this] show ?case unfolding t m by simp
qed

lemma map_third_zip:
  "map (\<lambda>t. f (snd (snd t))) (zip xs (zip ys zs)) =
     map f (take (length (zip xs (zip ys zs))) zs)"
proof (induction xs arbitrary: ys zs)
  case Nil
  then show ?case by simp
next
  case (Cons x xs)
  then show ?case by (cases ys; cases zs) simp_all
qed

lemma map_first_zip:
  "map fst (zip xs (zip ys zs)) = take (length (zip xs (zip ys zs))) xs"
proof (induction xs arbitrary: ys zs)
  case Nil
  then show ?case by simp
next
  case (Cons x xs)
  then show ?case by (cases ys; cases zs) simp_all
qed

lemma search_Inr_cases:
  assumes "search encode collection q k = Inr rs"
    and "encode [q] = Inr emb"
    and "query collection emb (min k (int (count collection))) = Inr results"
  shows "rs = [] \<or>
    (\<exists>docs0 dr metas0 mr dists0 xr.
        documents results = Some (docs0 # dr) \<and> metadatas results = Some (metas0 # mr) \<and>
        distances results = Some (dists0 # xr) \<and>
        build_results (zip docs0 (zip metas0 dists0)) [] = Inr rs)"
  using assms unfolding search_def
  by (auto split: if_splits option.splits list.splits)

lemma search_scores:
  assumes "search encode collection q k = Inr rs"
    and "encode [q] = Inr emb"
    and "query collection emb (min k (int (count collection))) = Inr results"
    and "distances results = Some (dists0 # xr)"
  shows "length rs \<le> length dists0 \<and>
         map score rs = map similarity_of (take (length rs) dists0)"
proof -
  from search_Inr_cases [OF assms(1-3)] show ?thesis
  proof (elim disjE exE conjE)
    assume "rs = []"
    then show ?thesis by simp
  next
    fix docs0 dr metas0 mr d0 xr'
    assume "distances results = Some (d0 # xr')"
      and b: "build_results (zip docs0 (zip metas0 d0)) [] = Inr rs"
    then have d0: "d0 = dists0" using assms(4) by simp
    from build_results_Inr [OF b] have
      len: "length rs = length (zip docs0 (zip metas0 dists0))" and
      sc: "map score rs = map (\<lambda>t. similarity_of (snd (snd t))) (zip docs0 (zip metas0 dists0))"
      unfolding d0 by simp_all
    have l: "length rs \<le> length dists0" using len by simp
    have "map (\<lambda>t. similarity_of (snd (snd t))) (zip docs0 (zip metas0 dists0)) =
        map similarity_of (take (length rs) dists0)"
      unfolding len by (rule map_third_zip)
    then show ?thesis using sc l by simp
  qed
qed

lemma search_texts:
  assumes "search encode collection q k = Inr rs"
    and "encode [q] = Inr emb"
    and "query collection emb (min k (int (count collection))) = Inr results"
    and "documents results = Some (docs0 # dr)"
  shows "map text' rs = take (length rs) docs0"
proof -
  from search_Inr_cases [OF assms(1-3)] show ?thesis
  proof (elim disjE exE conjE)
    assume "rs = []"
    then show ?thesis by simp
  next
    fix d0 dr' metas0 mr dists0 xr
    assume "documents results = Some (d0 # dr')"
      and b: "build_results (zip d0 (zip metas0 dists0)) [] = Inr rs"
    then have d0: "d0 = docs0" using assms(4) by simp
    from build_results_Inr [OF b] have
      len: "length rs = length (zip docs0 (zip metas0 dists0))" and
      tx: "map text' rs = map fst (zip docs0 (zip metas0 dists0))"
      unfolding d0 by simp_all
    have "map fst (zip docs0 (zip metas0 dists0)) = take (length rs) docs0"
      unfolding len by (rule map_first_zip)
    then show ?thesis using tx by simp
  qed
qed

lemma example_search:
  "search (fixed_encode [0]) example_collection ''refund'' 3 = Inr example_results"
  by (simp add: search_def example_collection_def example_response_def example_results_def
      fixed_encode_def fixed_index_def metadata_get_def
      similarity_of_0 similarity_of_1 similarity_of_2)

lemma example_query:
  "fixed_encode [0] [''refund''] = Inr [[0]] \<and>
   query example_collection [[0]] (min 3 (int (count example_collection))) = Inr example_response"
  by (simp add: example_collection_def fixed_encode_def fixed_index_def)




section \<open>Paragraphs and the separator\<close>











section \<open>The properties of the chunker\<close>

text \<open>
  C1.  The size bound.  As stated, with the bound \<open>chunk_size + overlap\<close>, the property fails:
  a chunk that starts with the carried overlap also holds the separator between the
  overlap and its paragraph, two characters that the bound leaves out.  With
  \<open>chunk_size = 10\<close> and \<open>overlap = 3\<close> the text of two paragraphs of 8 and 10 characters gives
  a second chunk of 15 characters.

  What holds: every chunk produced by \<^const>\<open>chunk_text\<close> either ends with a paragraph of the text
  that is longer than \<open>chunk_size\<close>, or has length at most \<open>chunk_size + overlap + 2\<close> when
  \<open>overlap\<close> is positive and at most \<open>chunk_size\<close> otherwise.
\<close>

theorem chunk_length_bound:
  assumes "c \<in> set (chunk_text text chunk_size overlap)"
  shows "(\<exists>p \<in> set (paragraphs text). chunk_size < int (length p) \<and> suffix p c) \<or>
         int (length c) \<le> chunk_size + (if 0 < overlap then overlap + 2 else 0)"
proof -
  from assms obtain j where j: "j < length (chunk_text text chunk_size overlap)"
      "c = chunk_text text chunk_size overlap ! j"
    by (auto simp: in_set_conv_nth)
  obtain gs where cc: "concat gs = paragraphs text"
    and len: "length (chunk_text text chunk_size overlap) = length gs"
    and nth: "\<forall>j < length gs. \<exists>a.
            a = carry overlap (if j = 0 then [] else layout overlap [] gs ! (j - 1)) \<and>
            layout overlap [] gs ! j = a @ join_sep (gs ! j) \<and>
            chunk_text text chunk_size overlap ! j = lstrip a @ join_sep (gs ! j) \<and>
            trimmed (join_sep (gs ! j)) \<and>
            (length (gs ! j) = 1 \<or> int (length (a @ join_sep (gs ! j))) \<le> chunk_size)"
    using chunk_text_nth [of "text" chunk_size overlap] by blast
  from nth j len obtain a where a: "a = carry overlap (if j = 0 then [] else layout overlap [] gs ! (j - 1))"
    and c: "c = lstrip a @ join_sep (gs ! j)"
    and sz: "length (gs ! j) = 1 \<or> int (length (a @ join_sep (gs ! j))) \<le> chunk_size"
    by auto
  have la: "int (length (lstrip a)) \<le> (if 0 < overlap then overlap + 2 else 0)"
    using length_lstrip [of a] length_carry [of overlap] unfolding a
    by (smt (verit) of_nat_mono)
  from sz show ?thesis
  proof
    assume "length (gs ! j) = 1"
    then obtain p where g: "gs ! j = [p]" by (cases "gs ! j") auto
    have "gs ! j \<in> set gs" using j len by simp
    then have "[p] \<in> set gs" unfolding g .
    then have p: "p \<in> set (paragraphs text)" unfolding cc [symmetric] by force
    have cp: "c = lstrip a @ p" using c g by simp
    show ?thesis
    proof (cases "chunk_size < int (length p)")
      case True
      then show ?thesis using p cp by (auto simp: suffix_def)
    next
      case False
      then show ?thesis using la cp by auto
    qed
  next
    assume "int (length (a @ join_sep (gs ! j))) \<le> chunk_size"
    then have "int (length c) \<le> chunk_size"
      unfolding c using length_lstrip [of a] by simp
    then show ?thesis by auto
  qed
qed

theorem chunk_length_bound_witness:
  "''aaa\<newline>\<newline>bbbbbbbbbb'' \<in> set (chunk_text ''aaaaaaaa\<newline>\<newline>bbbbbbbbbb'' 10 3) \<and>
   ((\<exists>p \<in> set (paragraphs ''aaaaaaaa\<newline>\<newline>bbbbbbbbbb'').
        10 < int (length p) \<and> suffix p ''aaa\<newline>\<newline>bbbbbbbbbb'') \<or>
    int (length ''aaa\<newline>\<newline>bbbbbbbbbb'') \<le> 10 + (if (0::int) < 3 then 3 + 2 else 0))"
proof -
  have h: "''aaa\<newline>\<newline>bbbbbbbbbb'' \<in> set (chunk_text ''aaaaaaaa\<newline>\<newline>bbbbbbbbbb'' 10 3)"
    by code_simp
  show ?thesis using h chunk_length_bound [OF h] by blast
qed

theorem chunk_length_bound_counterexample:
  "paragraphs ''aaaaaaaa\<newline>\<newline>bbbbbbbbbb'' = [''aaaaaaaa'', ''bbbbbbbbbb''] \<and>
   \<not> 10 < int (length ''aaaaaaaa'') \<and> \<not> 10 < int (length ''bbbbbbbbbb'') \<and>
   chunk_text ''aaaaaaaa\<newline>\<newline>bbbbbbbbbb'' 10 3 = [''aaaaaaaa'', ''aaa\<newline>\<newline>bbbbbbbbbb''] \<and>
   \<not> int (length (chunk_text ''aaaaaaaa\<newline>\<newline>bbbbbbbbbb'' 10 3 ! 1)) \<le> 10 + 3"
  by code_simp

text \<open>
  C4.  Coverage.  The chunks are, in order, built from consecutive groups of the paragraphs
  of the text: each chunk is a seed (what is left of the carried overlap, at most
  \<open>overlap + 2\<close> characters, nothing when \<open>overlap\<close> is not positive) followed by the paragraphs
  of its group joined by the separator; no group is empty, and the groups, concatenated,
  are the paragraphs in their original order.  In particular every paragraph appears in
  some chunk.
\<close>

theorem chunk_coverage:
  "\<exists>seeds gs. length seeds = length gs \<and> [] \<notin> set gs \<and>
      concat gs = paragraphs text \<and>
      chunk_text text chunk_size overlap = map2 (\<lambda>s g. s @ join_sep g) seeds gs \<and>
      list_all (\<lambda>s. int (length s) \<le> (if 0 < overlap then overlap + 2 else 0)) seeds \<and>
      (\<forall>p \<in> set (paragraphs text). \<exists>c \<in> set (chunk_text text chunk_size overlap). sublist p c)"
proof -
  obtain gs where cc: "concat gs = paragraphs text" and ne: "[] \<notin> set gs"
    and len: "length (chunk_text text chunk_size overlap) = length gs"
    and nth: "\<forall>j < length gs. \<exists>a.
            a = carry overlap (if j = 0 then [] else layout overlap [] gs ! (j - 1)) \<and>
            layout overlap [] gs ! j = a @ join_sep (gs ! j) \<and>
            chunk_text text chunk_size overlap ! j = lstrip a @ join_sep (gs ! j) \<and>
            trimmed (join_sep (gs ! j)) \<and>
            (length (gs ! j) = 1 \<or> int (length (a @ join_sep (gs ! j))) \<le> chunk_size)"
    using chunk_text_nth [of "text" chunk_size overlap] by blast
  define seed where
    "seed j = lstrip (carry overlap (if j = 0 then [] else layout overlap [] gs ! (j - 1)))" for j
  define seeds where "seeds = map seed [0..<length gs]"
  have ls: "length seeds = length gs" unfolding seeds_def by simp
  have cj: "chunk_text text chunk_size overlap ! j = seed j @ join_sep (gs ! j)"
    if "j < length gs" for j
    using nth that unfolding seed_def by auto
  have eq: "chunk_text text chunk_size overlap = map2 (\<lambda>s g. s @ join_sep g) seeds gs"
  proof (rule nth_equalityI)
    show "length (chunk_text text chunk_size overlap) =
        length (map2 (\<lambda>s g. s @ join_sep g) seeds gs)"
      using len ls by simp
  next
    fix j assume "j < length (chunk_text text chunk_size overlap)"
    then have j: "j < length gs" using len by simp
    then show "chunk_text text chunk_size overlap ! j =
        map2 (\<lambda>s g. s @ join_sep g) seeds gs ! j"
      using cj [OF j] ls unfolding seeds_def by simp
  qed
  have bound: "int (length (seed j)) \<le> (if 0 < overlap then overlap + 2 else 0)" for j
    unfolding seed_def
    using length_lstrip [of "carry overlap (if j = 0 then [] else layout overlap [] gs ! (j - 1))"]
      length_carry [of overlap "if j = 0 then [] else layout overlap [] gs ! (j - 1)"]
    by (smt (verit) of_nat_mono)
  have bounds: "list_all (\<lambda>s. int (length s) \<le> (if 0 < overlap then overlap + 2 else 0)) seeds"
    unfolding seeds_def list_all_iff using bound by auto
  have cover: "\<exists>c \<in> set (chunk_text text chunk_size overlap). sublist p c"
    if "p \<in> set (paragraphs text)" for p
  proof -
    from that obtain g where "g \<in> set gs" and pg: "p \<in> set g"
      unfolding cc [symmetric] by auto
    then obtain j where j: "j < length gs" and g: "g = gs ! j"
      by (auto simp: in_set_conv_nth)
    have "sublist p (join_sep g)" using pg by (rule sublist_join_sep)
    then have "sublist p (seed j @ join_sep g)" by (simp add: sublist_append)
    then have "sublist p (chunk_text text chunk_size overlap ! j)"
      using cj [OF j] g by simp
    moreover have "chunk_text text chunk_size overlap ! j \<in> set (chunk_text text chunk_size overlap)"
      using j len by simp
    ultimately show ?thesis by blast
  qed
  show ?thesis using ls ne cc eq bounds cover by blast
qed

theorem chunk_coverage_witness:
  "''bbbbbbbbbb'' \<in> set (paragraphs ''aaaaaaaa\<newline>\<newline>bbbbbbbbbb'') \<and>
   (\<exists>c \<in> set (chunk_text ''aaaaaaaa\<newline>\<newline>bbbbbbbbbb'' 10 3). sublist ''bbbbbbbbbb'' c)"
proof -
  have h: "''bbbbbbbbbb'' \<in> set (paragraphs ''aaaaaaaa\<newline>\<newline>bbbbbbbbbb'')"
    by code_simp
  from chunk_coverage [of "''aaaaaaaa\<newline>\<newline>bbbbbbbbbb''" 10 3]
  have "\<forall>p \<in> set (paragraphs ''aaaaaaaa\<newline>\<newline>bbbbbbbbbb'').
          \<exists>c \<in> set (chunk_text ''aaaaaaaa\<newline>\<newline>bbbbbbbbbb'' 10 3). sublist p c"
    by blast
  with h show ?thesis by blast
qed






text \<open>
  C10.  For every text, \<open>chunk_size\<close> and \<open>overlap\<close>, every chunk returned by \<^const>\<open>chunk_text\<close>
  is non-empty and equal to its own trimmed form.
\<close>

theorem chunks_nonempty_and_trimmed:
  "c \<in> set (chunk_text text chunk_size overlap) \<Longrightarrow> c \<noteq> [] \<and> strip c = c"
proof -
  assume "c \<in> set (chunk_text text chunk_size overlap)"
  then obtain j where j: "j < length (chunk_text text chunk_size overlap)"
      "c = chunk_text text chunk_size overlap ! j"
    by (auto simp: in_set_conv_nth)
  obtain gs where len: "length (chunk_text text chunk_size overlap) = length gs"
    and nth: "\<forall>j < length gs. \<exists>a.
            a = carry overlap (if j = 0 then [] else layout overlap [] gs ! (j - 1)) \<and>
            layout overlap [] gs ! j = a @ join_sep (gs ! j) \<and>
            chunk_text text chunk_size overlap ! j = lstrip a @ join_sep (gs ! j) \<and>
            trimmed (join_sep (gs ! j)) \<and>
            (length (gs ! j) = 1 \<or> int (length (a @ join_sep (gs ! j))) \<le> chunk_size)"
    using chunk_text_nth [of "text" chunk_size overlap] by blast
  from nth j len obtain a where c: "c = lstrip a @ join_sep (gs ! j)"
    and t: "trimmed (join_sep (gs ! j))" by auto
  have "trimmed c" using t unfolding c trimmed_def by (cases "lstrip a")
      (use lstrip_Nil_or_hd [of a] in auto)
  then show ?thesis using strip_trimmed unfolding trimmed_def by simp
qed

theorem chunks_nonempty_and_trimmed_witness:
  "''aaa\<newline>\<newline>bbbbbbbbbb'' \<in> set (chunk_text ''aaaaaaaa\<newline>\<newline>bbbbbbbbbb'' 10 3) \<and>
   ''aaa\<newline>\<newline>bbbbbbbbbb'' \<noteq> [] \<and>
   strip ''aaa\<newline>\<newline>bbbbbbbbbb'' = ''aaa\<newline>\<newline>bbbbbbbbbb''"
proof -
  have h: "''aaa\<newline>\<newline>bbbbbbbbbb'' \<in> set (chunk_text ''aaaaaaaa\<newline>\<newline>bbbbbbbbbb'' 10 3)"
    by code_simp
  show ?thesis using h chunks_nonempty_and_trimmed [OF h] by blast
qed

section \<open>The properties of the retriever\<close>






text \<open>
  C5.  The ranking order.  When the distances of the index response are in ascending
  order, the scores of the results of \<^const>\<open>search\<close> are in non-increasing order; and the
  results follow the order of the response: the \<open>i\<close>-th result carries the \<open>i\<close>-th document
  and the score of the \<open>i\<close>-th distance.
\<close>

theorem ranking_order:
  assumes "search encode collection q top_k = Inr rs"
    and "encode [q] = Inr emb"
    and "query collection emb (min top_k (int (count collection))) = Inr results"
    and "documents results = Some (docs0 # dr)"
    and "distances results = Some (dists0 # xr)"
    and "sorted dists0"
  shows "sorted_wrt (\<lambda>a b. b \<le> a) (map score rs) \<and>
         map text' rs = take (length rs) docs0 \<and>
         map score rs = map similarity_of (take (length rs) dists0)"
proof -
  from search_scores [OF assms(1-3,5)] have
    sc: "map score rs = map similarity_of (take (length rs) dists0)" by simp
  have tx: "map text' rs = take (length rs) docs0"
    using assms(1-4) by (rule search_texts)
  have "sorted (take (length rs) dists0)" using assms(6) by (rule sorted_wrt_take)
  then have "sorted_wrt (\<lambda>a b. similarity_of b \<le> similarity_of a) (take (length rs) dists0)"
    by (rule sorted_wrt_mono_rel [rotated]) (rule similarity_of_antimono)
  then have "sorted_wrt (\<lambda>a b. b \<le> a) (map score rs)"
    unfolding sc by (simp add: sorted_wrt_map)
  then show ?thesis using tx sc by simp
qed

theorem ranking_order_witness:
  "search (fixed_encode [0]) example_collection ''refund'' 3 = Inr example_results \<and>
   fixed_encode [0] [''refund''] = Inr [[0]] \<and>
   query example_collection [[0]] (min 3 (int (count example_collection))) =
     Inr example_response \<and>
   documents example_response =
     Some ([''Returns are accepted within 30 days.'', ''Standard shipping takes 5 days.'',
            ''Refunds are issued in 7 days.''] # []) \<and>
   distances example_response = Some ([0, 1, 2] # []) \<and>
   sorted [0, 1, 2 :: rat] \<and>
   sorted_wrt (\<lambda>a b. b \<le> a) (map score example_results) \<and>
   map text' example_results =
     take (length example_results)
       [''Returns are accepted within 30 days.'', ''Standard shipping takes 5 days.'',
        ''Refunds are issued in 7 days.'']"
proof -
  have h1: "search (fixed_encode [0]) example_collection ''refund'' 3 = Inr example_results"
    by (rule example_search)
  have h2: "fixed_encode [0] [''refund''] = Inr [[0]]"
    using example_query by simp
  have h3: "query example_collection [[0]] (min 3 (int (count example_collection))) =
      Inr example_response"
    using example_query by simp
  have h4: "documents example_response =
     Some ([''Returns are accepted within 30 days.'', ''Standard shipping takes 5 days.'',
            ''Refunds are issued in 7 days.''] # [])"
    by (simp add: example_response_def)
  have h5: "distances example_response = Some ([0, 1, 2] # [])"
    by (simp add: example_response_def)
  have h6: "sorted [0, 1, 2 :: rat]" by simp
  show ?thesis
    using h1 h2 h3 h4 h5 h6 ranking_order [OF h1 h2 h3 h4 h5 h6] by blast
qed



text \<open>
  C7.  The number of results.  On a non-empty collection \<^const>\<open>search\<close> asks the index for
  \<open>min top_k count\<close> neighbours: when the response to that request holds exactly that many
  documents, metadata entries and distances, \<^const>\<open>search\<close> returns exactly that many results,
  so at most \<open>top_k\<close> and at most the number of stored chunks.
\<close>

theorem search_result_count:
  assumes "count collection \<noteq> 0"
    and "encode [q] = Inr emb"
    and "query collection emb (min top_k (int (count collection))) = Inr results"
    and "documents results = Some (docs0 # dr)"
    and "metadatas results = Some (metas0 # mr)"
    and "distances results = Some (dists0 # xr)"
    and "int (length docs0) = min top_k (int (count collection))"
    and "length metas0 = length docs0"
    and "length dists0 = length docs0"
    and "list_all (\<lambda>m. m \<noteq> None) metas0"
  shows "\<exists>rs. search encode collection q top_k = Inr rs \<and>
           int (length rs) = min top_k (int (count collection)) \<and>
           int (length rs) \<le> top_k \<and> length rs \<le> count collection"
proof (cases "docs0 = []")
  case True
  then have "search encode collection q top_k = Inr []"
    using assms(1-4) unfolding search_def by simp
  then show ?thesis using assms(7) True by auto
next
  case False
  have s: "search encode collection q top_k = build_results (zip docs0 (zip metas0 dists0)) []"
    using assms(1-6) False unfolding search_def by simp
  have "fst (snd t) \<noteq> None" if "t \<in> set (zip docs0 (zip metas0 dists0))" for t
  proof -
    obtain d m x where t: "t = (d, m, x)" by (cases t) auto
    from that have "(m, x) \<in> set (zip metas0 dists0)" unfolding t by (rule set_zip_rightD)
    then have "m \<in> set metas0" by (rule set_zip_leftD)
    then show ?thesis using assms(10) unfolding t by (simp add: list_all_iff)
  qed
  then have "list_all (\<lambda>t. fst (snd t) \<noteq> None) (zip docs0 (zip metas0 dists0))"
    unfolding list_all_iff by blast
  then obtain rs where rs: "build_results (zip docs0 (zip metas0 dists0)) [] = Inr rs"
    using build_results_total by blast
  from build_results_Inr [OF rs] have "length rs = length docs0"
    using assms(8,9) by simp
  then show ?thesis using s rs assms(7) by auto
qed

theorem search_result_count_witness:
  "count example_collection \<noteq> 0 \<and>
   fixed_encode [0] [''refund''] = Inr [[0]] \<and>
   query example_collection [[0]] (min 3 (int (count example_collection))) =
     Inr example_response \<and>
   int (length [''Returns are accepted within 30 days.'', ''Standard shipping takes 5 days.'',
                ''Refunds are issued in 7 days.'']) = min 3 (int (count example_collection)) \<and>
   (\<exists>rs. search (fixed_encode [0]) example_collection ''refund'' 3 = Inr rs \<and>
         int (length rs) = min 3 (int (count example_collection)) \<and>
         int (length rs) \<le> 3 \<and> length rs \<le> count example_collection)"
proof -
  have h1: "count example_collection \<noteq> 0" by (simp add: example_collection_def)
  have h2: "fixed_encode [0] [''refund''] = Inr [[0]]"
    using example_query by simp
  have h3: "query example_collection [[0]] (min 3 (int (count example_collection))) =
      Inr example_response"
    using example_query by simp
  have h4: "documents example_response =
     Some ([''Returns are accepted within 30 days.'', ''Standard shipping takes 5 days.'',
            ''Refunds are issued in 7 days.''] # [])"
    by (simp add: example_response_def)
  have h5: "metadatas example_response =
     Some ([Some [''source'' \<mapsto> ''returns.md''], Some [''source'' \<mapsto> ''shipping.md''],
            Some Map.empty] # [])"
    by (simp add: example_response_def)
  have h6: "distances example_response = Some ([0, 1, 2] # [])"
    by (simp add: example_response_def)
  have h7: "int (length [''Returns are accepted within 30 days.'',
      ''Standard shipping takes 5 days.'', ''Refunds are issued in 7 days.'']) =
      min 3 (int (count example_collection))"
    by (simp add: example_collection_def)
  have h8: "length [Some [''source'' \<mapsto> ''returns.md''], Some [''source'' \<mapsto> ''shipping.md''],
      Some (Map.empty :: metadata)] =
      length [''Returns are accepted within 30 days.'', ''Standard shipping takes 5 days.'',
        ''Refunds are issued in 7 days.'']"
    by simp
  have h9: "length [0, 1, 2 :: rat] =
      length [''Returns are accepted within 30 days.'', ''Standard shipping takes 5 days.'',
        ''Refunds are issued in 7 days.'']"
    by simp
  have h10: "list_all (\<lambda>m. m \<noteq> None)
      [Some [''source'' \<mapsto> ''returns.md''], Some [''source'' \<mapsto> ''shipping.md''],
       Some (Map.empty :: metadata)]"
    by simp
  show ?thesis
    using h1 h2 h3 h7
      search_result_count [where encode = "fixed_encode [0]" and collection = example_collection
        and q = "''refund''" and top_k = 3 and emb = "[[0]]" and results = example_response,
        OF h1 h2 h3 h4 h5 h6 h7 h8 h9 h10]
    by blast
qed

end
